theory Spec2Isabelle
  imports Complex_Main "HOL-Library.Char_ord" "HOL-Library.List_Lexorder"
begin

section \<open>Exceptions\<close>

text \<open>
  The exceptions the attacker and the simulator can meet: \<open>random.choice\<close> on an empty
  sequence raises \<open>IndexError\<close>, \<open>max\<close> on an empty sequence raises \<open>ValueError\<close>,
  the graph raises \<open>NetworkXError\<close> for a node it does not hold, and a pluggable metric
  may raise an exception of its own (\<open>MetricError\<close>).
\<close>

datatype error = IndexError | ValueError | NetworkXError | MetricError

section \<open>The network\<close>

text \<open>
  The network is a \<open>networkx.Graph\<close>, an object of the library the source calls: a
  dictionary from each node to the collection of its neighbours, in insertion order. The
  key list of the dictionary is the node list. A dictionary holds a key once:
  \<open>distinct (nodes g)\<close>. The operations below are the ones the attacker and the
  simulator use, with the behaviour the library documents for them.
\<close>

type_synonym 'a graph = "('a \<times> 'a list) list"

definition nodes :: "'a graph \<Rightarrow> 'a list" where
  "nodes g = map fst g"

text \<open>\<open>G.neighbors(v)\<close>: the neighbours of a node, \<open>NetworkXError\<close> when the node is absent.\<close>

definition neighbors :: "'a graph \<Rightarrow> 'a \<Rightarrow> error + 'a list" where
  "neighbors g v = (case map_of g v of None \<Rightarrow> Inl NetworkXError | Some ns \<Rightarrow> Inr ns)"

text \<open>\<open>del adj[u][v]\<close>: forget \<open>v\<close> in the adjacency of \<open>u\<close>.\<close>

definition del_adj :: "'a \<Rightarrow> 'a graph \<Rightarrow> 'a \<Rightarrow> 'a graph" where
  "del_adj v g u = map (\<lambda>(k, ns). if k = u then (k, removeAll v ns) else (k, ns)) g"

text \<open>
  \<open>G.remove_node(v)\<close>: \<open>NetworkXError\<close> when the node is absent; otherwise the node is
  deleted from the adjacency of each of its neighbours, then its own entry is deleted.
\<close>

definition remove_node :: "'a graph \<Rightarrow> 'a \<Rightarrow> error + 'a graph" where
  "remove_node g v =
     (case map_of g v of
        None \<Rightarrow> Inl NetworkXError
      | Some nbrs \<Rightarrow> Inr (filter (\<lambda>(k, ns). k \<noteq> v) (foldl (del_adj v) g nbrs)))"

text \<open>\<open>G.copy()\<close>: a graph value of its own with the same nodes and edges.\<close>

definition copy :: "'a graph \<Rightarrow> 'a graph" where
  "copy g = g"

text \<open>
  \<open>Graph.degree(G, nbunch)\<close>, which the attacker calls as a function of the graph and a
  list of nodes or \<open>None\<close> and whose result \<open>_best_node\<close> iterates as pairs: the pairs
  (node, degree) for the nodes of \<open>nbunch\<close> that are in the graph (a node of \<open>nbunch\<close>
  that the graph does not hold is skipped), for all nodes when \<open>nbunch\<close> is \<open>None\<close>.
  A self-loop counts twice.
\<close>

definition deg :: "'a graph \<Rightarrow> 'a \<Rightarrow> nat" where
  "deg g v = (case map_of g v of
                None \<Rightarrow> 0
              | Some ns \<Rightarrow> length ns + (if v \<in> set ns then 1 else 0))"

definition degree :: "'a graph \<Rightarrow> 'a list option \<Rightarrow> ('a \<times> real) list" where
  "degree g nbunch =
     map (\<lambda>v. (v, real (deg g v)))
       (case nbunch of None \<Rightarrow> nodes g | Some ns \<Rightarrow> filter (\<lambda>v. v \<in> set (nodes g)) ns)"

section \<open>The world: object store and random generator\<close>

text \<open>
  Graphs are mutable objects, reached through references: the store is a list of graph
  values and a reference is an index into it. The module-level random generator is a
  source of numbers and the count of numbers drawn so far; a draw from a list takes the
  next number modulo the length of the list, so every sequence of draws is the sequence
  of some source.
\<close>

record 'a world =
  heap :: "'a graph list"
  rng_src :: "nat \<Rightarrow> nat"
  rng_pos :: nat

definition alloc :: "'a graph \<Rightarrow> 'a world \<Rightarrow> nat \<times> 'a world" where
  "alloc g w = (length (heap w), w\<lparr>heap := heap w @ [g]\<rparr>)"

text \<open>\<open>random.choice(xs)\<close>: \<open>IndexError\<close> on an empty list, else the element at a drawn index.\<close>

definition random_choice :: "'b list \<Rightarrow> 'a world \<Rightarrow> (error + 'b) \<times> 'a world" where
  "random_choice xs w =
     (if xs = [] then (Inl IndexError, w)
      else (Inr (xs ! (rng_src w (rng_pos w) mod length xs)), w\<lparr>rng_pos := Suc (rng_pos w)\<rparr>))"

text \<open>
  \<open>max(xs, key=f)\<close>: \<open>ValueError\<close> on an empty sequence, else the first item whose key
  no other item exceeds.
\<close>

fun max_item :: "('b \<Rightarrow> 'k::linorder) \<Rightarrow> 'b \<Rightarrow> 'b list \<Rightarrow> 'b" where
  "max_item key best [] = best"
| "max_item key best (x # xs) = max_item key (if key best < key x then x else best) xs"

definition py_max :: "('b \<Rightarrow> 'k::linorder) \<Rightarrow> 'b list \<Rightarrow> error + 'b" where
  "py_max key xs = (case xs of [] \<Rightarrow> Inl ValueError | x # xs' \<Rightarrow> Inr (max_item key x xs'))"

section \<open>The attacker\<close>

type_synonym 'a metric = "'a graph \<Rightarrow> 'a list option \<Rightarrow> error + ('a \<times> real) list"

record 'a attacker =
  self_network :: nat
  self_n :: int
  self_metric :: "'a metric"

text \<open>\<open>NetworkAttacker.__init__(network, n, metric=None)\<close>.\<close>

definition NetworkAttacker ::
  "nat \<Rightarrow> int \<Rightarrow> 'a metric option \<Rightarrow> 'a world \<Rightarrow> 'a attacker \<times> 'a world" where
  "NetworkAttacker network n metric w =
     (let (r, w') = alloc (copy (heap w ! network)) w
      in (\<lparr>self_network = r, self_n = n,
           self_metric = (case metric of None \<Rightarrow> (\<lambda>g nbunch. Inr (degree g nbunch))
                                       | Some m \<Rightarrow> m)\<rparr>, w'))"

text \<open>The \<open>network\<close> property: the graph the attacker works on.\<close>

definition network :: "'a attacker \<Rightarrow> 'a world \<Rightarrow> 'a graph" where
  "network self w = heap w ! self_network self"

definition random_node :: "'a attacker \<Rightarrow> 'a list option \<Rightarrow> 'a world \<Rightarrow> (error + 'a) \<times> 'a world" where
  "random_node self nodes_opt w =
     random_choice (case nodes_opt of Some ns \<Rightarrow> ns | None \<Rightarrow> nodes (network self w)) w"

definition best_node :: "'a attacker \<Rightarrow> 'a list option \<Rightarrow> 'a world \<Rightarrow> (error + 'a) \<times> 'a world" where
  "best_node self nodes_opt w =
     (case self_metric self (network self w) nodes_opt of
        Inl e \<Rightarrow> (Inl e, w)
      | Inr ranks \<Rightarrow>
          (case py_max snd ranks of
             Inl e \<Rightarrow> (Inl e, w)
           | Inr (node, _) \<Rightarrow> (Inr node, w)))"

text \<open>
  The callables handed to \<open>_attack\<close>: the bound methods \<open>_random_node\<close> and
  \<open>_best_node\<close>, or the closure \<open>choose_target\<close> of \<open>_path_chooser\<close> with its
  captured variables \<open>neighbor_discriminator\<close>, \<open>target\<close> and \<open>neighbors\<close>.
\<close>

datatype selector = RandomNode | BestNode

datatype 'a chooser = Method selector | PathClosure selector 'a "'a list option"

definition select :: "selector \<Rightarrow> 'a attacker \<Rightarrow> 'a list option \<Rightarrow> 'a world \<Rightarrow> (error + 'a) \<times> 'a world" where
  "select s = (case s of RandomNode \<Rightarrow> random_node | BestNode \<Rightarrow> best_node)"

fun choose_target ::
  "'a attacker \<Rightarrow> 'a chooser \<Rightarrow> 'a world \<Rightarrow> (error + ('a \<times> 'a chooser)) \<times> 'a world" where
  "choose_target self (Method s) w =
     (case select s self None w of
        (Inl e, w') \<Rightarrow> (Inl e, w')
      | (Inr t, w') \<Rightarrow> (Inr (t, Method s), w'))"
| "choose_target self (PathClosure d target nbrs) w =
     (case (case nbrs of
              None \<Rightarrow> (Inr target, w)
            | Some ns \<Rightarrow> if ns = [] then random_node self None w else select d self (Some ns) w) of
        (Inl e, w') \<Rightarrow> (Inl e, w')
      | (Inr t, w') \<Rightarrow>
          (case neighbors (network self w') t of
             Inl e \<Rightarrow> (Inl e, w')
           | Inr ns' \<Rightarrow> (Inr (t, PathClosure d t (Some ns')), w')))"

text \<open>One round of the loop of \<open>_attack\<close>: \<open>self._network.remove_node(choose_target())\<close>.\<close>

definition attack_round ::
  "'a attacker \<Rightarrow> 'a chooser \<Rightarrow> 'a world \<Rightarrow> (error + ('a \<times> 'a chooser)) \<times> 'a world" where
  "attack_round self ch w =
     (case choose_target self ch w of
        (Inl e, w') \<Rightarrow> (Inl e, w')
      | (Inr (t, ch'), w') \<Rightarrow>
          (case remove_node (network self w') t of
             Inl e \<Rightarrow> (Inl e, w')
           | Inr g' \<Rightarrow> (Inr (t, ch'), w'\<lparr>heap := (heap w')[self_network self := g']\<rparr>)))"

fun attack_loop :: "'a attacker \<Rightarrow> 'a chooser \<Rightarrow> nat \<Rightarrow> 'a world \<Rightarrow> (error + unit) \<times> 'a world" where
  "attack_loop self ch 0 w = (Inr (), w)"
| "attack_loop self ch (Suc k) w =
     (case attack_round self ch w of
        (Inl e, w') \<Rightarrow> (Inl e, w')
      | (Inr (t, ch'), w') \<Rightarrow> attack_loop self ch' k w')"

text \<open>
  \<open>_attack(choose_target, n=None)\<close>: the count is \<open>self._n\<close> when \<open>n\<close> is
  \<open>None\<close>; \<open>range(n)\<close> is empty for a negative \<open>n\<close>.
\<close>

definition requested :: "'a attacker \<Rightarrow> int option \<Rightarrow> int" where
  "requested self n = (case n of None \<Rightarrow> self_n self | Some n' \<Rightarrow> n')"

definition attack ::
  "'a attacker \<Rightarrow> 'a chooser \<Rightarrow> int option \<Rightarrow> 'a world \<Rightarrow> (error + unit) \<times> 'a world" where
  "attack self ch n w = attack_loop self ch (nat (requested self n)) w"

text \<open>\<open>_path_chooser(neighbor_discriminator)\<close>: draws the first target, then returns the closure.\<close>

definition path_chooser ::
  "'a attacker \<Rightarrow> selector \<Rightarrow> 'a world \<Rightarrow> (error + 'a chooser) \<times> 'a world" where
  "path_chooser self d w =
     (case random_node self None w of
        (Inl e, w') \<Rightarrow> (Inl e, w')
      | (Inr target, w') \<Rightarrow> (Inr (PathClosure d target None), w'))"

definition random :: "'a attacker \<Rightarrow> int option \<Rightarrow> 'a world \<Rightarrow> (error + unit) \<times> 'a world" where
  "random self n w = attack self (Method RandomNode) n w"

definition targeted :: "'a attacker \<Rightarrow> int option \<Rightarrow> 'a world \<Rightarrow> (error + unit) \<times> 'a world" where
  "targeted self n w = attack self (Method BestNode) n w"

definition random_path :: "'a attacker \<Rightarrow> int option \<Rightarrow> 'a world \<Rightarrow> (error + unit) \<times> 'a world" where
  "random_path self n w =
     (case path_chooser self RandomNode w of
        (Inl e, w') \<Rightarrow> (Inl e, w')
      | (Inr ch, w') \<Rightarrow> attack self ch n w')"

definition targeted_path :: "'a attacker \<Rightarrow> int option \<Rightarrow> 'a world \<Rightarrow> (error + unit) \<times> 'a world" where
  "targeted_path self n w =
     (case path_chooser self BestNode w of
        (Inl e, w') \<Rightarrow> (Inl e, w')
      | (Inr ch, w') \<Rightarrow> attack self ch n w')"

text \<open>The policy names of the simulator and \<open>getattr(attacker, attack_type)\<close>.\<close>

datatype attack_type = Random | Targeted | Random_path | Targeted_path

definition policy ::
  "attack_type \<Rightarrow> 'a attacker \<Rightarrow> int option \<Rightarrow> 'a world \<Rightarrow> (error + unit) \<times> 'a world" where
  "policy ty = (case ty of Random \<Rightarrow> random | Targeted \<Rightarrow> targeted
                         | Random_path \<Rightarrow> random_path | Targeted_path \<Rightarrow> targeted_path)"

text \<open>
  The removals of a run of the loop of \<open>_attack\<close>, for the rounds that succeed: the world
  in which the round started, the node it removed and the callable after the round.
\<close>

fun attack_trace ::
  "'a attacker \<Rightarrow> 'a chooser \<Rightarrow> nat \<Rightarrow> 'a world \<Rightarrow> ('a world \<times> 'a \<times> 'a chooser) list" where
  "attack_trace self ch 0 w = []"
| "attack_trace self ch (Suc k) w =
     (case attack_round self ch w of
        (Inl e, w') \<Rightarrow> []
      | (Inr (t, ch'), w') \<Rightarrow> (w, t, ch') # attack_trace self ch' k w')"

definition removed :: "('a world \<times> 'a \<times> 'a chooser) list \<Rightarrow> 'a list" where
  "removed tr = map (\<lambda>(w, t, ch). t) tr"

text \<open>The callable a policy hands to \<open>_attack\<close>, and the removals of one policy call.\<close>

definition first_chooser ::
  "attack_type \<Rightarrow> 'a attacker \<Rightarrow> 'a world \<Rightarrow> (error + 'a chooser) \<times> 'a world" where
  "first_chooser ty self w =
     (case ty of Random \<Rightarrow> (Inr (Method RandomNode), w)
               | Targeted \<Rightarrow> (Inr (Method BestNode), w)
               | Random_path \<Rightarrow> path_chooser self RandomNode w
               | Targeted_path \<Rightarrow> path_chooser self BestNode w)"

definition policy_trace ::
  "attack_type \<Rightarrow> 'a attacker \<Rightarrow> int option \<Rightarrow> 'a world \<Rightarrow> ('a world \<times> 'a \<times> 'a chooser) list" where
  "policy_trace ty self n w =
     (case first_chooser ty self w of
        (Inl e, w') \<Rightarrow> []
      | (Inr ch, w') \<Rightarrow> attack_trace self ch (nat (requested self n)) w')"

text \<open>\<open>k\<close> calls of a policy in a row, as the simulator makes them; the first failure ends them.\<close>

fun policy_calls ::
  "attack_type \<Rightarrow> 'a attacker \<Rightarrow> int option \<Rightarrow> nat \<Rightarrow> 'a world \<Rightarrow> (error + unit) \<times> 'a world" where
  "policy_calls ty self n 0 w = (Inr (), w)"
| "policy_calls ty self n (Suc k) w =
     (case policy ty self n w of
        (Inl e, w') \<Rightarrow> (Inl e, w')
      | (Inr u, w') \<Rightarrow> policy_calls ty self n k w')"

section \<open>Measurement\<close>

text \<open>
  \<open>nx.connected_component_subgraphs\<close> yields, for each node not seen so far, the
  subgraph on the nodes a breadth-first search reaches from it; \<open>len\<close> of a subgraph is
  the number of its nodes, so a component is kept here as the list of its nodes.
  \<open>adj g v\<close> is \<open>G[v]\<close> for a node the search holds.
\<close>

definition adj :: "'a graph \<Rightarrow> 'a \<Rightarrow> 'a list" where
  "adj g v = (case map_of g v of None \<Rightarrow> [] | Some ns \<Rightarrow> ns)"

definition mentioned :: "'a graph \<Rightarrow> 'a set" where
  "mentioned g = (\<Union>(k, ns) \<in> set g. set ns)"

lemma adj_mentioned: "set (adj g v) \<subseteq> mentioned g"
proof (cases "map_of g v")
  case None
  then show ?thesis by (simp add: adj_def)
next
  case (Some ns)
  then have "(v, ns) \<in> set g" by (rule map_of_SomeD)
  then have "set ns \<subseteq> mentioned g" unfolding mentioned_def by blast
  with Some show ?thesis by (simp add: adj_def)
qed

function plain_bfs :: "'a graph \<Rightarrow> 'a list \<Rightarrow> 'a list \<Rightarrow> 'a list" where
  "plain_bfs g seen [] = seen"
| "plain_bfs g seen (v # queue) =
     (if v \<in> set seen then plain_bfs g seen queue
      else plain_bfs g (seen @ [v]) (queue @ adj g v))"
  by pat_completeness auto
termination
proof (relation "measures [\<lambda>(g, seen, queue). card ((mentioned g \<union> set queue) - set seen),
                           \<lambda>(g, seen, queue). length queue]")
  show "wf (measures [\<lambda>(g :: 'a graph, seen, queue). card ((mentioned g \<union> set queue) - set seen),
                      \<lambda>(g, seen, queue). length queue])"
    by simp
next
  fix g :: "'a graph" and seen :: "'a list" and v :: 'a and queue :: "'a list"
  assume "v \<in> set seen"
  then have "(mentioned g \<union> set (v # queue)) - set seen = (mentioned g \<union> set queue) - set seen"
    by auto
  then show "((g, seen, queue), (g, seen, v # queue))
       \<in> measures [\<lambda>(g, seen, queue). card ((mentioned g \<union> set queue) - set seen),
                     \<lambda>(g, seen, queue). length queue]"
    by simp
next
  fix g :: "'a graph" and seen :: "'a list" and v :: 'a and queue :: "'a list"
  assume v: "v \<notin> set seen"
  have fin: "finite (mentioned g)" by (auto simp: mentioned_def)
  have "(mentioned g \<union> set (queue @ adj g v)) - set (seen @ [v])
        \<subset> (mentioned g \<union> set (v # queue)) - set seen"
    using v adj_mentioned [of g v] by auto
  then have "card ((mentioned g \<union> set (queue @ adj g v)) - set (seen @ [v]))
        < card ((mentioned g \<union> set (v # queue)) - set seen)"
    using fin by (intro psubset_card_mono) auto
  then show "((g, seen @ [v], queue @ adj g v), (g, seen, v # queue))
       \<in> measures [\<lambda>(g, seen, queue). card ((mentioned g \<union> set queue) - set seen),
                     \<lambda>(g, seen, queue). length queue]"
    by simp
qed

fun components_from :: "'a graph \<Rightarrow> 'a list \<Rightarrow> 'a list \<Rightarrow> 'a list list" where
  "components_from g seen [] = []"
| "components_from g seen (v # vs) =
     (if v \<in> set seen then components_from g seen vs
      else (let c = plain_bfs g [] [v] in c # components_from g (seen @ c) vs))"

definition connected_components :: "'a graph \<Rightarrow> 'a list list" where
  "connected_components g = components_from g [] (nodes g)"

text \<open>\<open>measure(network)\<close>: the number of components and the size of the largest.\<close>

definition measure_network :: "'a graph \<Rightarrow> error + (nat \<times> nat)" where
  "measure_network g =
     (let components = connected_components g
      in case py_max length components of
           Inl e \<Rightarrow> Inl e
         | Inr gigantic_component \<Rightarrow> Inr (length components, length gigantic_component))"

section \<open>Simulation\<close>

text \<open>
  The module constants \<open>start\<close>, \<open>end\<close> and \<open>step\<close>. \<open>fmt\<close> is
  \<open>"{:.3f}".format(num)\<close> for a number that is not negative: the number of thousandths
  nearest to it, written with three decimals. The constants are floats in the source; on
  them \<open>int((end - start) / step)\<close> is 100 and \<open>(i + 1) * step\<close> prints as the
  exact three decimals of \<open>(i + 1) / 1000\<close> for every \<open>i\<close> below 100, which is what
  the exact arithmetic here gives.
\<close>

definition sim_start :: real where "sim_start = 0"
definition sim_end :: real where "sim_end = 0.1"
definition sim_step :: real where "sim_step = 0.001"

definition digit :: "nat \<Rightarrow> char" where
  "digit d = ''0123456789'' ! d"

fun decimal :: "nat \<Rightarrow> string" where
  "decimal m = (if m < 10 then [digit m] else decimal (m div 10) @ [digit (m mod 10)])"

declare decimal.simps [simp del]

definition fmt :: "real \<Rightarrow> string" where
  "fmt num = (let m = nat (round (num * 1000))
              in decimal (m div 1000) @ ''.'' @
                 [digit (m div 100 mod 10), digit (m div 10 mod 10), digit (m mod 10)])"

definition iters :: nat where
  "iters = nat \<lfloor>(sim_end - sim_start) / sim_step\<rfloor>"


text \<open>The result store is a dictionary: \<open>store[k] = v\<close> replaces the value of a key it holds.\<close>

type_synonym result_store = "(string \<times> (nat \<times> nat)) list"

fun store_set :: "('k \<times> 'v) list \<Rightarrow> 'k \<Rightarrow> 'v \<Rightarrow> ('k \<times> 'v) list" where
  "store_set [] k v = [(k, v)]"
| "store_set ((k', v') # kvs) k v =
     (if k' = k then (k, v) # kvs else (k', v') # store_set kvs k v)"

fun simulate_loop ::
  "'a attacker \<Rightarrow> attack_type \<Rightarrow> nat list \<Rightarrow> result_store \<Rightarrow> 'a world
   \<Rightarrow> (error + unit) \<times> result_store \<times> 'a world" where
  "simulate_loop attacker ty [] result_store w = (Inr (), result_store, w)"
| "simulate_loop attacker ty (i # rest) result_store w =
     (case policy ty attacker None w of
        (Inl e, w') \<Rightarrow> (Inl e, result_store, w')
      | (Inr u, w') \<Rightarrow>
          (case measure_network (network attacker w') of
             Inl e \<Rightarrow> (Inl e, result_store, w')
           | Inr m \<Rightarrow>
               simulate_loop attacker ty rest
                 (store_set result_store (fmt (real (i + 1) * sim_step)) m) w'))"

definition simulate ::
  "'a attacker \<Rightarrow> attack_type \<Rightarrow> result_store \<Rightarrow> 'a world
   \<Rightarrow> (error + unit) \<times> result_store \<times> 'a world" where
  "simulate attacker ty result_store w =
     (case measure_network (network attacker w) of
        Inl e \<Rightarrow> (Inl e, result_store, w)
      | Inr m \<Rightarrow> simulate_loop attacker ty [0..<iters] (store_set result_store (fmt 0) m) w)"


section \<open>Notions of the statements\<close>




text \<open>The keys a run writes, in the order of the writes.\<close>

definition sim_keys :: "string list" where
  "sim_keys = map (\<lambda>k. fmt (real k * sim_step)) [0..<Suc iters]"

section \<open>A scenario\<close>

text \<open>
  The path graph on the nodes 1 to 5 and a world that holds it; attackers constructed
  from it with 1, 7 and 0 removals per step, and a second attacker with 1 removal per
  step constructed after the first; a network of three isolated nodes and the complete
  network on three nodes.
\<close>

definition path5 :: "nat graph" where
  "path5 = [(1, [2]), (2, [1, 3]), (3, [2, 4]), (4, [3, 5]), (5, [4])]"

definition world0 :: "nat world" where
  "world0 = \<lparr>heap = [path5], rng_src = (\<lambda>i. 5 * i + 3), rng_pos = 0\<rparr>"

definition attacker1 :: "nat attacker" where
  "attacker1 = fst (NetworkAttacker 0 1 None world0)"

definition world1 :: "nat world" where
  "world1 = snd (NetworkAttacker 0 1 None world0)"

definition attacker7 :: "nat attacker" where
  "attacker7 = fst (NetworkAttacker 0 7 None world0)"

definition attacker0 :: "nat attacker" where
  "attacker0 = fst (NetworkAttacker 0 0 None world0)"

definition attacker2 :: "nat attacker" where
  "attacker2 = fst (NetworkAttacker 0 1 None world1)"

definition world2 :: "nat world" where
  "world2 = snd (NetworkAttacker 0 1 None world1)"



section \<open>Properties of the graph operations\<close>

lemma nodes_del_adj: "nodes (del_adj v g u) = nodes g"
  by (induction g) (auto simp: nodes_def del_adj_def)

lemma nodes_foldl_del_adj: "nodes (foldl (del_adj v) g us) = nodes g"
  by (induction us arbitrary: g) (simp_all add: nodes_del_adj)

lemma nodes_filter_key: "nodes (filter (\<lambda>(k, ns). k \<noteq> v) g) = filter (\<lambda>k. k \<noteq> v) (nodes g)"
  by (induction g) (auto simp: nodes_def)

lemma map_of_Some_nodes: "map_of g v = Some ns \<Longrightarrow> v \<in> set (nodes g)"
  by (auto simp: nodes_def dest!: map_of_SomeD intro: rev_image_eqI)

lemma map_of_None_nodes: "map_of g v = None \<longleftrightarrow> v \<notin> set (nodes g)"
  by (simp add: nodes_def map_of_eq_None_iff)

lemma remove_node_Inr:
  assumes "remove_node g v = Inr g'"
  shows "v \<in> set (nodes g)" and "nodes g' = filter (\<lambda>k. k \<noteq> v) (nodes g)"
  using assms
  by (auto simp: remove_node_def nodes_filter_key nodes_foldl_del_adj map_of_Some_nodes
      split: option.splits)

lemma remove_node_Inl: "remove_node g v = Inl e \<Longrightarrow> v \<notin> set (nodes g) \<and> e = NetworkXError"
  by (auto simp: remove_node_def map_of_None_nodes split: option.splits)


lemma neighbors_Inr: "neighbors g v = Inr ns \<Longrightarrow> v \<in> set (nodes g)"
  by (auto simp: neighbors_def map_of_Some_nodes split: option.splits)

section \<open>The object store changes by removals only\<close>

lemma random_choice_heap: "heap (snd (random_choice xs w)) = heap w"
  by (simp add: random_choice_def)

lemma random_node_heap: "heap (snd (random_node self ns w)) = heap w"
  by (simp add: random_node_def random_choice_heap)

lemma best_node_world: "snd (best_node self ns w) = w"
  by (simp add: best_node_def split: sum.splits prod.splits)

lemma select_heap: "heap (snd (select s self ns w)) = heap w"
  by (cases s) (simp_all add: select_def random_node_heap best_node_world)

lemma choose_target_heap: "heap (snd (choose_target self ch w)) = heap w"
proof (cases ch)
  case (Method s)
  then show ?thesis
    using select_heap [of s self None w]
    by (auto split: prod.splits sum.splits)
next
  case (PathClosure d target nbrs)
  show ?thesis
  proof (cases nbrs)
    case None
    with PathClosure show ?thesis by (simp split: sum.splits)
  next
    case (Some ns)
    show ?thesis
    proof (cases "ns = []")
      case True
      with PathClosure Some show ?thesis
        using random_node_heap [of self None w]
        by (auto split: prod.splits sum.splits)
    next
      case False
      with PathClosure Some show ?thesis
        using select_heap [of d self "Some ns" w]
        by (auto split: prod.splits sum.splits)
    qed
  qed
qed

lemma choose_target_network: "network self (snd (choose_target self ch w)) = network self w"
  by (simp add: network_def choose_target_heap)

lemma attack_round_Inl: "attack_round self ch w = (Inl e, w') \<Longrightarrow> heap w' = heap w"
  using choose_target_heap [of self ch w]
  by (auto simp: attack_round_def split: prod.splits sum.splits)

lemma attack_round_Inr:
  assumes "attack_round self ch w = (Inr (t, ch'), w')"
  shows "\<exists>w0 g'. choose_target self ch w = (Inr (t, ch'), w0) \<and> heap w0 = heap w \<and>
           remove_node (network self w) t = Inr g' \<and>
           heap w' = (heap w)[self_network self := g']"
  using assms choose_target_heap [of self ch w]
  by (auto simp: attack_round_def network_def split: prod.splits sum.splits)

lemma attack_round_nodes:
  assumes "attack_round self ch w = (Inr (t, ch'), w')" and "self_network self < length (heap w)"
  shows "t \<in> set (nodes (network self w))"
    and "nodes (network self w') = filter (\<lambda>k. k \<noteq> t) (nodes (network self w))"
    and "length (heap w') = length (heap w)"
  using attack_round_Inr [OF assms(1)] assms(2)
  by (auto simp: network_def dest: remove_node_Inr)

section \<open>Removals of a policy call\<close>

lemma attack_loop_removed:
  assumes "attack_loop self ch k w = (Inr (), w')"
    and "self_network self < length (heap w)"
    and "distinct (nodes (network self w))"
  shows "length (removed (attack_trace self ch k w)) = k \<and>
         distinct (removed (attack_trace self ch k w)) \<and>
         set (removed (attack_trace self ch k w)) \<subseteq> set (nodes (network self w)) \<and>
         nodes (network self w') =
           filter (\<lambda>v. v \<notin> set (removed (attack_trace self ch k w))) (nodes (network self w))"
  using assms
proof (induction k arbitrary: ch w)
  case 0
  then show ?case by (simp add: removed_def)
next
  case (Suc k)
  from Suc.prems(1) obtain t ch' w1 where
    round: "attack_round self ch w = (Inr (t, ch'), w1)" and
    rest: "attack_loop self ch' k w1 = (Inr (), w')"
    by (auto split: prod.splits sum.splits)
  note n = attack_round_nodes [OF round Suc.prems(2)]
  have ref: "self_network self < length (heap w1)" using n(3) Suc.prems(2) by simp
  have dist: "distinct (nodes (network self w1))" using n(2) Suc.prems(3) by simp
  note ih = Suc.IH [OF rest ref dist]
  have tr: "attack_trace self ch (Suc k) w = (w, t, ch') # attack_trace self ch' k w1"
    using round by simp
  let ?R = "removed (attack_trace self ch' k w1)"
  have R: "removed (attack_trace self ch (Suc k) w) = t # ?R"
    unfolding tr removed_def by simp
  have sub: "set ?R \<subseteq> set (nodes (network self w)) - {t}"
    using ih n(2) by auto
  have "nodes (network self w') =
        filter (\<lambda>v. v \<notin> set (t # ?R)) (nodes (network self w))"
    using ih n(2) by (auto intro: filter_cong)
  with ih sub n(1) show ?case
    unfolding R by auto
qed

lemma length_filter_removed:
  assumes "distinct xs" "distinct rs" "set rs \<subseteq> set xs"
  shows "length (filter (\<lambda>v. v \<notin> set rs) xs) + length rs = length xs"
proof -
  have "length (filter (\<lambda>v. v \<notin> set rs) xs) = card (set xs - set rs)"
    using assms(1) by (simp add: distinct_card [symmetric] set_diff_eq) 
  moreover have "card (set xs - set rs) = card (set xs) - card (set rs)"
    using assms(3) by (simp add: card_Diff_subset)
  moreover have "card (set rs) \<le> card (set xs)" using assms(3) by (simp add: card_mono)
  ultimately show ?thesis using assms(1,2) by (simp add: distinct_card)
qed

lemma policy_first_chooser:
  "policy ty self n w =
     (case first_chooser ty self w of
        (Inl e, w') \<Rightarrow> (Inl e, w')
      | (Inr ch, w') \<Rightarrow> attack_loop self ch (nat (requested self n)) w')"
  by (cases ty)
     (simp_all add: policy_def first_chooser_def random_def targeted_def random_path_def
        targeted_path_def attack_def split: prod.splits sum.splits)

lemma path_chooser_heap: "heap (snd (path_chooser self d w)) = heap w"
  using random_node_heap [of self None w]
  by (auto simp: path_chooser_def split: prod.splits sum.splits)

lemma first_chooser_heap: "heap (snd (first_chooser ty self w)) = heap w"
  by (cases ty) (simp_all add: first_chooser_def path_chooser_heap)

lemma policy_removed:
  assumes ok: "policy ty self n w = (Inr (), w')"
    and ref: "self_network self < length (heap w)"
    and dist: "distinct (nodes (network self w))"
  shows "length (removed (policy_trace ty self n w)) = nat (requested self n) \<and>
         distinct (removed (policy_trace ty self n w)) \<and>
         set (removed (policy_trace ty self n w)) \<subseteq> set (nodes (network self w)) \<and>
         nodes (network self w') =
           filter (\<lambda>v. v \<notin> set (removed (policy_trace ty self n w))) (nodes (network self w))"
proof -
  from ok obtain ch w0 where
    fc: "first_chooser ty self w = (Inr ch, w0)" and
    loop: "attack_loop self ch (nat (requested self n)) w0 = (Inr (), w')"
    by (auto simp: policy_first_chooser split: prod.splits sum.splits)
  have h: "heap w0 = heap w" using first_chooser_heap [of ty self w] fc by simp
  have tr: "policy_trace ty self n w = attack_trace self ch (nat (requested self n)) w0"
    by (simp add: policy_trace_def fc)
  have "self_network self < length (heap w0)" "distinct (nodes (network self w0))"
    using ref dist h by (simp_all add: network_def)
  from attack_loop_removed [OF loop this] show ?thesis
    unfolding tr by (simp add: network_def h)
qed

lemma attack_round_heap_length:
  "length (heap (snd (attack_round self ch w))) = length (heap w)"
proof (cases "attack_round self ch w")
  case (Pair r w')
  show ?thesis
  proof (cases r)
    case (Inl e)
    with Pair attack_round_Inl [of self ch w e w'] show ?thesis by simp
  next
    case (Inr p)
    obtain t ch' where "p = (t, ch')" by (cases p)
    with Pair Inr attack_round_Inr [of self ch w t ch' w'] show ?thesis by auto
  qed
qed

lemma attack_loop_heap_length:
  "length (heap (snd (attack_loop self ch k w))) = length (heap w)"
proof (induction k arbitrary: ch w)
  case 0
  then show ?case by simp
next
  case (Suc k)
  show ?case
    using attack_round_heap_length [of self ch w] Suc.IH
    by (auto split: prod.splits sum.splits)
qed

lemma policy_heap_length: "length (heap (snd (policy ty self n w))) = length (heap w)"
  using first_chooser_heap [of ty self w]
  by (auto simp: policy_first_chooser attack_loop_heap_length split: prod.splits sum.splits)

lemma policy_count:
  assumes ok: "policy ty self n w = (Inr (), w')"
    and ref: "self_network self < length (heap w)"
    and dist: "distinct (nodes (network self w))"
  shows "length (nodes (network self w')) + nat (requested self n) = length (nodes (network self w))"
    and "distinct (nodes (network self w'))"
    and "self_network self < length (heap w')"
proof -
  note r = policy_removed [OF ok ref dist]
  show "length (nodes (network self w')) + nat (requested self n) = length (nodes (network self w))"
    using r length_filter_removed [OF dist, of "removed (policy_trace ty self n w)"] by simp
  show "distinct (nodes (network self w'))" using r dist by simp
  show "self_network self < length (heap w')"
    using policy_heap_length [of ty self n w] ok ref by simp
qed

lemma policy_calls_count:
  assumes "policy_calls ty self n k w = (Inr (), w')"
    and "self_network self < length (heap w)"
    and "distinct (nodes (network self w))"
  shows "length (nodes (network self w')) + k * nat (requested self n)
         = length (nodes (network self w))"
  using assms
proof (induction k arbitrary: w)
  case 0
  then show ?case by simp
next
  case (Suc k)
  from Suc.prems(1) obtain w1 where
    one: "policy ty self n w = (Inr (), w1)" and
    rest: "policy_calls ty self n k w1 = (Inr (), w')"
    by (auto split: prod.splits sum.splits)
  note c = policy_count [OF one Suc.prems(2,3)]
  from Suc.IH [OF rest c(3) c(2)] c(1) show ?case by simp
qed


lemma attack_loop_bound:
  assumes "attack_loop self ch k w = (Inr (), w')"
    and "self_network self < length (heap w)"
  shows "k \<le> length (nodes (network self w))"
  using assms
proof (induction k arbitrary: ch w)
  case 0
  then show ?case by simp
next
  case (Suc k)
  from Suc.prems(1) obtain t ch' w1 where
    round: "attack_round self ch w = (Inr (t, ch'), w1)" and
    rest: "attack_loop self ch' k w1 = (Inr (), w')"
    by (auto split: prod.splits sum.splits)
  note n = attack_round_nodes [OF round Suc.prems(2)]
  have "k \<le> length (nodes (network self w1))"
    using Suc.IH [OF rest] n(3) Suc.prems(2) by simp
  moreover have "length (nodes (network self w1)) < length (nodes (network self w))"
    unfolding n(2) using n(1) by (simp add: length_filter_less)
  ultimately show ?case by simp
qed

lemma policy_bound:
  assumes "fst (policy ty self n w) = Inr ()"
    and "self_network self < length (heap w)"
  shows "requested self n \<le> int (length (nodes (network self w)))"
proof -
  from assms(1) obtain ch w0 where
    fc: "first_chooser ty self w = (Inr ch, w0)" and
    ok: "fst (attack_loop self ch (nat (requested self n)) w0) = Inr ()"
    by (auto simp: policy_first_chooser split: prod.splits sum.splits)
  from ok have loop: "attack_loop self ch (nat (requested self n)) w0
      = (Inr (), snd (attack_loop self ch (nat (requested self n)) w0))"
    by (metis prod.collapse)
  have h: "heap w0 = heap w" using first_chooser_heap [of ty self w] fc by simp
  from attack_loop_bound [OF loop] assms(2) h
  have "nat (requested self n) \<le> length (nodes (network self w))"
    by (simp add: network_def)
  then show ?thesis by simp
qed

lemma simulate_loop_raise:
  assumes "fst (policy ty self None w) = Inl e"
  shows "simulate_loop self ty (i # rest) st w = (Inl e, st, snd (policy ty self None w))"
  using assms by (auto split: prod.splits sum.splits)

lemma iters_100: "iters = 100"
  by (simp add: iters_def sim_end_def sim_start_def sim_step_def)

lemma range_iters: "[0..<iters] = 0 # [1..<iters]"
  by (simp add: iters_100 upt_conv_Cons)

section \<open>The node with the best score\<close>







section \<open>The default metric\<close>




section \<open>The walk of the path policies\<close>















section \<open>A policy call changes the network of its attacker only\<close>

lemma attack_round_frame:
  assumes "r \<noteq> self_network self"
  shows "heap (snd (attack_round self ch w)) ! r = heap w ! r"
proof (cases "attack_round self ch w")
  case (Pair res w')
  show ?thesis
  proof (cases res)
    case (Inl e)
    with Pair attack_round_Inl [of self ch w e w'] show ?thesis by simp
  next
    case (Inr p)
    obtain t ch' where "p = (t, ch')" by (cases p)
    with Pair Inr attack_round_Inr [of self ch w t ch' w'] assms show ?thesis by auto
  qed
qed

lemma attack_loop_frame:
  assumes "r \<noteq> self_network self"
  shows "heap (snd (attack_loop self ch k w)) ! r = heap w ! r"
proof (induction k arbitrary: ch w)
  case 0
  then show ?case by simp
next
  case (Suc k)
  show ?case
    using attack_round_frame [OF assms, of ch w] Suc.IH
    by (auto split: prod.splits sum.splits)
qed

lemma policy_frame:
  assumes "r \<noteq> self_network self"
  shows "heap (snd (policy ty self n w)) ! r = heap w ! r"
  using first_chooser_heap [of ty self w] attack_loop_frame [OF assms]
  by (auto simp: policy_first_chooser split: prod.splits sum.splits)

lemma policy_calls_frame:
  assumes "r \<noteq> self_network self"
  shows "heap (snd (policy_calls ty self n k w)) ! r = heap w ! r"
proof (induction k arbitrary: w)
  case 0
  then show ?case by simp
next
  case (Suc k)
  show ?case
    using policy_frame [OF assms, of ty n w] Suc.IH
    by (auto split: prod.splits sum.splits)
qed

lemma attack_trace_removed_subset:
  assumes "self_network self < length (heap w)"
  shows "set (removed (attack_trace self ch k w)) \<subseteq> set (nodes (network self w))"
  using assms
proof (induction k arbitrary: ch w)
  case 0
  then show ?case by (simp add: removed_def)
next
  case (Suc k)
  show ?case
  proof (cases "attack_round self ch w")
    case (Pair res w1)
    show ?thesis
    proof (cases res)
      case (Inl e)
      with Pair show ?thesis by (simp add: removed_def)
    next
      case (Inr p)
      obtain t ch' where p: "p = (t, ch')" by (cases p)
      with Pair Inr have round: "attack_round self ch w = (Inr (t, ch'), w1)" by simp
      note n = attack_round_nodes [OF round Suc.prems]
      have "set (removed (attack_trace self ch' k w1)) \<subseteq> set (nodes (network self w1))"
        using Suc.IH [of w1 ch'] n(3) Suc.prems by simp
      with n(1,2) round show ?thesis by (auto simp: removed_def)
    qed
  qed
qed

lemma policy_trace_removed_subset:
  assumes "self_network self < length (heap w)"
  shows "set (removed (policy_trace ty self n w)) \<subseteq> set (nodes (network self w))"
proof (cases "first_chooser ty self w")
  case (Pair res w0)
  show ?thesis
  proof (cases res)
    case (Inl e)
    with Pair show ?thesis by (simp add: policy_trace_def removed_def)
  next
    case (Inr ch)
    have h: "heap w0 = heap w" using first_chooser_heap [of ty self w] Pair by simp
    from attack_trace_removed_subset [of self w0 ch "nat (requested self n)"] assms h Pair Inr
    show ?thesis by (simp add: policy_trace_def network_def)
  qed
qed

lemma NetworkAttacker_alloc:
  assumes "NetworkAttacker src n m w = (A, wA)"
  shows "self_network A = length (heap w)" and "heap wA = heap w @ [heap w ! src]"
    and "self_n A = n"
  using assms by (auto simp: NetworkAttacker_def alloc_def copy_def)

section \<open>Components of a network\<close>











section \<open>The keys of the result store\<close>

lemma of_char_digit: "d < 10 \<Longrightarrow> of_char (digit d) = (48 + d :: nat)"
proof -
  assume "d < 10"
  then consider "d = 0" | "d = 1" | "d = 2" | "d = 3" | "d = 4" | "d = 5" | "d = 6"
    | "d = 7" | "d = 8" | "d = 9"
    by atomize_elim arith
  then show ?thesis by cases (simp_all add: digit_def)
qed

lemma digit_less: "a < 10 \<Longrightarrow> b < 10 \<Longrightarrow> digit a < digit b \<longleftrightarrow> a < b"
  by (simp add: less_char_def of_char_digit)

lemma digit_eq:
  assumes "a < 10" and "b < 10"
  shows "digit a = digit b \<longleftrightarrow> a = b"
proof
  assume "digit a = digit b"
  then have "(of_char (digit a) :: nat) = of_char (digit b)" by (rule arg_cong)
  then have "48 + a = 48 + b"
    by (simp only: of_char_digit [OF assms(1)] of_char_digit [OF assms(2)])
  then show "a = b" by simp
next
  assume "a = b"
  then show "digit a = digit b" by (rule arg_cong)
qed

lemma fmt_step:
  "fmt (real k * sim_step)
     = decimal (k div 1000) @ ''.'' @
       [digit (k div 100 mod 10), digit (k div 10 mod 10), digit (k mod 10)]"
proof -
  have eq: "real k * sim_step * 1000 = real k" by (simp add: sim_step_def)
  have "nat (round (real k * sim_step * 1000)) = k" unfolding eq by simp
  then show ?thesis unfolding fmt_def Let_def by (simp only:)
qed

lemma fmt_step_small:
  assumes "k < 1000"
  shows "fmt (real k * sim_step)
     = CHR ''0'' # CHR ''.'' # [digit (k div 100), digit (k div 10 mod 10), digit (k mod 10)]"
  using assms by (simp add: fmt_step decimal.simps [of 0] digit_def)

lemma lex3:
  fixes a b c a' b' c' :: nat
  assumes "100 * a + 10 * b + c < 100 * a' + 10 * b' + c'"
    and "b < 10" "c < 10" "b' < 10" "c' < 10"
  shows "a < a' \<or> a = a' \<and> (b < b' \<or> b = b' \<and> c < c')"
  using assms by arith

lemma digits3: "k = 100 * (k div 100) + 10 * (k div 10 mod 10) + k mod (10 :: nat)"
proof -
  have a: "k = 10 * (k div 10) + k mod 10" by simp
  have b: "k div 10 = 10 * (k div 10 div 10) + k div 10 mod 10" by simp
  have c: "k div 10 div 10 = k div 100" by (simp add: div_mult2_eq)
  have "k = 10 * (10 * (k div 10 div 10) + k div 10 mod 10) + k mod 10"
    using a b by (simp only:)
  then show ?thesis unfolding c by (simp only: distrib_left mult.assoc [symmetric])
qed

lemma fmt_step_less:
  assumes "k < l" and "l < 1000"
  shows "fmt (real k * sim_step) < fmt (real l * sim_step)"
proof -
  have k: "k < 1000" using assms by simp
  have d: "k div 100 < 10" "l div 100 < 10" "k div 10 mod 10 < 10" "l div 10 mod 10 < 10"
    "k mod 10 < 10" "l mod 10 < 10"
    using assms by simp_all
  have "100 * (k div 100) + 10 * (k div 10 mod 10) + k mod 10
      < 100 * (l div 100) + 10 * (l div 10 mod 10) + l mod 10"
    using assms(1) digits3 [of k] digits3 [of l] by (simp only:)
  from lex3 [OF this d(3) d(5) d(4) d(6)]
  have "k div 100 < l div 100 \<or>
        k div 100 = l div 100 \<and>
        (k div 10 mod 10 < l div 10 mod 10 \<or>
         k div 10 mod 10 = l div 10 mod 10 \<and> k mod 10 < l mod 10)" .
  then show ?thesis
    unfolding fmt_step_small [OF k] fmt_step_small [OF assms(2)]
    by (simp add: digit_less [OF d(1,2)] digit_less [OF d(3,4)] digit_less [OF d(5,6)]
        digit_eq [OF d(1,2)] digit_eq [OF d(3,4)])
qed

lemma sim_keys_length: "length sim_keys = Suc iters"
  by (simp add: sim_keys_def)

lemma sim_keys_nth: "k \<le> iters \<Longrightarrow> sim_keys ! k = fmt (real k * sim_step)"
  unfolding sim_keys_def by (simp add: nth_map_upt del: upt_Suc)

lemma sim_keys_sorted: "sorted_wrt (<) sim_keys"
proof -
  have "sim_keys ! i < sim_keys ! j" if "i < j" "j < length sim_keys" for i j
  proof -
    from that have j: "j \<le> iters" "i \<le> iters" by (simp_all add: sim_keys_length)
    with that have "j < 1000" by (simp add: iters_100)
    from fmt_step_less [OF that(1) this] j show ?thesis by (simp add: sim_keys_nth)
  qed
  then show ?thesis by (simp add: sorted_wrt_iff_nth_less)
qed

lemma sim_keys_distinct: "distinct sim_keys"
  using sim_keys_sorted by (simp add: strict_sorted_iff)

lemma fmt_0: "fmt 0 = ''0.000''"
  by (simp add: fmt_def decimal.simps [of 0] digit_def)

lemma sim_keys_first: "sim_keys ! 0 = ''0.000''"
  by (simp add: sim_keys_nth fmt_0)


section \<open>The writes of a run\<close>

lemma store_set_fresh: "k \<notin> fst ` set st \<Longrightarrow> store_set st k m = st @ [(k, m)]"
  by (induction st) auto

lemma foldl_store_set_fresh:
  assumes "distinct ks" and "set ks \<inter> fst ` set st = {}" and "length ms = length ks"
  shows "foldl (\<lambda>s (k, m). store_set s k m) st (zip ks ms) = st @ zip ks ms"
  using assms
proof (induction ks arbitrary: st ms)
  case Nil
  then show ?case by simp
next
  case (Cons k ks)
  from Cons.prems(3) obtain m ms' where ms: "ms = m # ms'" by (cases ms) auto
  have k: "k \<notin> fst ` set st" using Cons.prems(2) by auto
  have "set ks \<inter> fst ` set (st @ [(k, m)]) = {}" using Cons.prems(1,2) by auto
  from Cons.IH [OF _ this, of ms'] Cons.prems(1,3) ms
  show ?case by (simp add: store_set_fresh [OF k])
qed

lemma simulate_loop_writes:
  assumes "simulate_loop a ty is st w = (Inr (), st', w')"
  shows "\<exists>ms. length ms = length is \<and>
           st' = foldl (\<lambda>s (k, m). store_set s k m) st
                   (zip (map (\<lambda>i. fmt (real (Suc i) * sim_step)) is) ms)"
  using assms
proof (induction "is" arbitrary: st w)
  case Nil
  then show ?case by simp
next
  case (Cons i rest)
  from Cons.prems obtain w1 m where
    m: "measure_network (network a w1) = Inr m" and
    rest: "simulate_loop a ty rest (store_set st (fmt (real (Suc i) * sim_step)) m) w1
           = (Inr (), st', w')"
    by (auto split: prod.splits sum.splits)
  from Cons.IH [OF rest] obtain ms where
    "length ms = length rest"
    "st' = foldl (\<lambda>s (k, m). store_set s k m)
             (store_set st (fmt (real (Suc i) * sim_step)) m)
             (zip (map (\<lambda>i. fmt (real (Suc i) * sim_step)) rest) ms)"
    by blast
  then have "length (m # ms) = length (i # rest) \<and>
      st' = foldl (\<lambda>s (k, m). store_set s k m) st
              (zip (map (\<lambda>i. fmt (real (Suc i) * sim_step)) (i # rest)) (m # ms))"
    by simp
  then show ?case by blast
qed

lemma sim_keys_Cons:
  "sim_keys = fmt 0 # map (\<lambda>i. fmt (real (Suc i) * sim_step)) [0..<iters]"
proof -
  have "[0..<Suc iters] = 0 # map Suc [0..<iters]"
    by (simp only: upt_conv_Cons [of 0 "Suc iters"] map_Suc_upt)
  then show ?thesis by (simp add: sim_keys_def comp_def del: upt_Suc)
qed

section \<open>The claims\<close>

text \<open>
  Claim C10: a policy called with the count 0 removes no node and leaves the working
  network of the attacker as it was, in every world: the store of graphs is the same
  after the call, whatever the call returns, and the call makes no removal.
\<close>

theorem policy_zero_identity:
  "heap (snd (policy ty self (Some 0) w)) = heap w \<and>
   network self (snd (policy ty self (Some 0) w)) = network self w \<and>
   policy_trace ty self (Some 0) w = []"
proof -
  have "heap (snd (policy ty self (Some 0) w)) = heap w"
    using first_chooser_heap [of ty self w]
    by (auto simp: policy_first_chooser requested_def split: prod.splits sum.splits)
  moreover have "policy_trace ty self (Some 0) w = []"
    by (simp add: policy_trace_def requested_def split: prod.splits sum.splits)
  ultimately show ?thesis by (simp add: network_def)
qed

text \<open>
  Claim C1: a policy call that succeeds removes exactly the requested count of nodes
  (\<open>self._n\<close>, or the count of the caller), all distinct and all nodes of the working
  network, and the network keeps exactly the other nodes; after \<open>k\<close> calls that succeed
  the network holds its first node count minus \<open>k\<close> times the count. The attacker holds
  a reference into the store, a dictionary holds a key once, and a count is not negative.
\<close>

theorem policy_removes_exactly_n:
  assumes "self_network self < length (heap w)"
    and "distinct (nodes (network self w))"
    and "0 \<le> requested self n"
  shows "(fst (policy ty self n w) = Inr () \<longrightarrow>
            int (length (nodes (network self (snd (policy ty self n w)))))
              = int (length (nodes (network self w))) - requested self n \<and>
            length (removed (policy_trace ty self n w)) = nat (requested self n) \<and>
            distinct (removed (policy_trace ty self n w)) \<and>
            set (removed (policy_trace ty self n w)) \<subseteq> set (nodes (network self w)) \<and>
            nodes (network self (snd (policy ty self n w)))
              = filter (\<lambda>v. v \<notin> set (removed (policy_trace ty self n w))) (nodes (network self w))) \<and>
         (fst (policy_calls ty self n k w) = Inr () \<longrightarrow>
            int (length (nodes (network self (snd (policy_calls ty self n k w)))))
              = int (length (nodes (network self w))) - int k * requested self n)"
proof (intro conjI impI)
  assume "fst (policy ty self n w) = Inr ()"
  then have ok: "policy ty self n w = (Inr (), snd (policy ty self n w))"
    by (metis prod.collapse)
  note r = policy_removed [OF ok assms(1,2)]
  note c = policy_count [OF ok assms(1,2)]
  show "int (length (nodes (network self (snd (policy ty self n w)))))
              = int (length (nodes (network self w))) - requested self n"
    using c(1) assms(3) by linarith
  show "length (removed (policy_trace ty self n w)) = nat (requested self n)"
    and "distinct (removed (policy_trace ty self n w))"
    and "set (removed (policy_trace ty self n w)) \<subseteq> set (nodes (network self w))"
    and "nodes (network self (snd (policy ty self n w)))
              = filter (\<lambda>v. v \<notin> set (removed (policy_trace ty self n w))) (nodes (network self w))"
    using r by simp_all
next
  assume "fst (policy_calls ty self n k w) = Inr ()"
  then have ok: "policy_calls ty self n k w = (Inr (), snd (policy_calls ty self n k w))"
    by (metis prod.collapse)
  have "int (length (nodes (network self (snd (policy_calls ty self n k w)))))
          + int k * int (nat (requested self n)) = int (length (nodes (network self w)))"
    using policy_calls_count [OF ok assms(1,2)] by (metis of_nat_add of_nat_mult)
  then show "int (length (nodes (network self (snd (policy_calls ty self n k w)))))
              = int (length (nodes (network self w))) - int k * requested self n"
    using assms(3) by simp
qed

theorem policy_removes_exactly_n_witness:
  "self_network attacker1 < length (heap world1) \<and>
   distinct (nodes (network attacker1 world1)) \<and>
   0 \<le> requested attacker1 None \<and>
   fst (policy Random_path attacker1 (Some 3) world1) = Inr () \<and>
   length (nodes (network attacker1 (snd (policy Random_path attacker1 (Some 3) world1)))) = 2 \<and>
   fst (policy_calls Targeted attacker1 None 2 world1) = Inr () \<and>
   length (nodes (network attacker1 (snd (policy_calls Targeted attacker1 None 2 world1)))) = 3"
proof -
  have h1: "self_network attacker1 < length (heap world1)" by code_simp
  have h2: "distinct (nodes (network attacker1 world1))" by code_simp
  have h3: "0 \<le> requested attacker1 None" by code_simp
  have h3': "0 \<le> requested attacker1 (Some 3)" by code_simp
  have ok1: "fst (policy Random_path attacker1 (Some 3) world1) = Inr ()" by code_simp
  have ok2: "fst (policy_calls Targeted attacker1 None 2 world1) = Inr ()" by code_simp
  have len: "length (nodes (network attacker1 world1)) = 5" by code_simp
  have r1: "requested attacker1 None = 1" "requested attacker1 (Some 3) = 3" by code_simp+
  from policy_removes_exactly_n [OF h1 h2 h3', of Random_path 0] ok1
  have "int (length (nodes (network attacker1 (snd (policy Random_path attacker1 (Some 3) world1)))))
        = int (length (nodes (network attacker1 world1))) - requested attacker1 (Some 3)"
    by blast
  then have "length (nodes (network attacker1 (snd (policy Random_path attacker1 (Some 3) world1)))) = 2"
    using len r1 by simp
  moreover from policy_removes_exactly_n [OF h1 h2 h3, of Targeted 2] ok2
  have "int (length (nodes (network attacker1 (snd (policy_calls Targeted attacker1 None 2 world1)))))
        = int (length (nodes (network attacker1 world1))) - int 2 * requested attacker1 None"
    by blast
  then have "length (nodes (network attacker1 (snd (policy_calls Targeted attacker1 None 2 world1)))) = 3"
    using len r1 by simp
  ultimately show ?thesis using h1 h2 h3 ok1 ok2 by simp
qed

text \<open>
  Claim C7: a policy call that requests more removals than the working network has nodes
  raises. Inside a simulation the exception of the policy call leaves the run at once:
  the run returns that exception, with the result store as it was when the step started.
  For the first step of a run this is the store with the entry of the untouched network
  (or the store handed in, when measuring the untouched network has raised before).
\<close>

theorem over_removal_fails:
  assumes "self_network self < length (heap w)"
    and "int (length (nodes (network self w))) < requested self n"
  shows "\<exists>e. fst (policy ty self n w) = Inl e \<and>
           (n = None \<longrightarrow>
              simulate_loop self ty (i # rest) st w = (Inl e, st, snd (policy ty self None w)) \<and>
              (case measure_network (network self w) of
                 Inl e' \<Rightarrow> simulate self ty st w = (Inl e', st, w)
               | Inr m \<Rightarrow> simulate self ty st w
                   = (Inl e, store_set st (fmt 0) m, snd (policy ty self None w))))"
proof -
  have "fst (policy ty self n w) \<noteq> Inr ()"
    using policy_bound [of ty self n w] assms by auto
  then obtain e where e: "fst (policy ty self n w) = Inl e"
    by (cases "fst (policy ty self n w)") auto
  have "simulate_loop self ty (i # rest) st w = (Inl e, st, snd (policy ty self None w))"
    if "n = None" for i rest st
    using e that by (simp only: simulate_loop_raise)
  then show ?thesis
    using e by (auto simp: simulate_def range_iters split: sum.splits simp del: simulate_loop.simps)
qed

theorem over_removal_fails_witness:
  "self_network attacker7 < length (heap world1) \<and>
   int (length (nodes (network attacker7 world1))) < requested attacker7 None \<and>
   fst (policy Targeted attacker7 None world1) = Inl ValueError \<and>
   fst (simulate attacker7 Targeted [] world1) = Inl ValueError \<and>
   fst (snd (simulate attacker7 Targeted [] world1)) = [(''0.000'', (1, 5))]"
proof -
  have h1: "self_network attacker7 < length (heap world1)" by code_simp
  have h2: "int (length (nodes (network attacker7 world1))) < requested attacker7 None"
    by code_simp
  have m: "measure_network (network attacker7 world1) = Inr (1, 5)" by code_simp
  have p: "fst (policy Targeted attacker7 None world1) = Inl ValueError" by code_simp
  have f: "fmt 0 = ''0.000''" by code_simp
  from over_removal_fails [OF h1 h2, of Targeted 0 "[]" "[]"] p m f
  have "simulate attacker7 Targeted [] world1
          = (Inl ValueError, [(''0.000'', (1, 5))], snd (policy Targeted attacker7 None world1))"
    by auto
  with h1 h2 p show ?thesis by simp
qed









text \<open>
  Claim C6: two attackers constructed from one source network work on copies of their
  own. After the construction each holds the graph of the source. Whatever policy calls
  one attacker makes, the network of the other and the source network are the graphs
  they were, so every node that the calls of one attacker removed is still a node of the
  network of the other attacker and of the source network.
\<close>

theorem attackers_are_isolated:
  assumes "src < length (heap w)"
    and "NetworkAttacker src nA mA w = (A, wA)"
    and "NetworkAttacker src nB mB wA = (B, wB)"
  shows "network A wB = heap w ! src \<and> network B wB = heap w ! src \<and>
         network B (snd (policy_calls ty A cnt k wB)) = heap w ! src \<and>
         heap (snd (policy_calls ty A cnt k wB)) ! src = heap w ! src \<and>
         network A (snd (policy_calls ty B cnt k wB)) = heap w ! src \<and>
         heap (snd (policy_calls ty B cnt k wB)) ! src = heap w ! src \<and>
         (\<forall>X \<in> set (removed (policy_trace ty A cnt wB)).
            X \<in> set (nodes (network B (snd (policy ty A cnt wB)))) \<and>
            X \<in> set (nodes (heap (snd (policy ty A cnt wB)) ! src)))"
proof -
  note a = NetworkAttacker_alloc [OF assms(2)]
  note b = NetworkAttacker_alloc [OF assms(3)]
  have rA: "self_network A = length (heap w)" and rB: "self_network B = Suc (length (heap w))"
    using a b by simp_all
  have hB: "heap wB = heap w @ [heap w ! src, heap w ! src]"
    using a b assms(1) by (simp add: nth_append)
  have nA: "network A wB = heap w ! src" and nB: "network B wB = heap w ! src"
    and nS: "heap wB ! src = heap w ! src"
    using assms(1) by (simp_all add: network_def rA rB hB nth_append)
  have ne: "self_network B \<noteq> self_network A" "src \<noteq> self_network A" "src \<noteq> self_network B"
    using rA rB assms(1) by simp_all
  have f1: "network B (snd (policy_calls ty A cnt k wB)) = heap w ! src"
    using policy_calls_frame [OF ne(1), of ty cnt k wB] nB by (simp add: network_def)
  have f2: "heap (snd (policy_calls ty A cnt k wB)) ! src = heap w ! src"
    using policy_calls_frame [OF ne(2), of ty cnt k wB] nS by simp
  have f3: "network A (snd (policy_calls ty B cnt k wB)) = heap w ! src"
    using policy_calls_frame [OF ne(1) [symmetric], of ty cnt k wB] nA by (simp add: network_def)
  have f4: "heap (snd (policy_calls ty B cnt k wB)) ! src = heap w ! src"
    using policy_calls_frame [OF ne(3), of ty cnt k wB] nS by simp
  have g1: "network B (snd (policy ty A cnt wB)) = heap w ! src"
    using policy_frame [OF ne(1), of ty cnt wB] nB by (simp add: network_def)
  have g2: "heap (snd (policy ty A cnt wB)) ! src = heap w ! src"
    using policy_frame [OF ne(2), of ty cnt wB] nS by simp
  have "self_network A < length (heap wB)" by (simp add: rA hB)
  from policy_trace_removed_subset [OF this, of ty cnt]
  have "set (removed (policy_trace ty A cnt wB)) \<subseteq> set (nodes (heap w ! src))"
    by (simp add: nA)
  with nA nB f1 f2 f3 f4 g1 g2 show ?thesis by auto
qed

theorem attackers_are_isolated_witness:
  "0 < length (heap world0) \<and>
   NetworkAttacker 0 1 None world0 = (attacker1, world1) \<and>
   NetworkAttacker 0 1 None world1 = (attacker2, world2) \<and>
   removed (policy_trace Targeted attacker1 (Some 2) world2) = [2, 4] \<and>
   2 \<notin> set (nodes (network attacker1 (snd (policy Targeted attacker1 (Some 2) world2)))) \<and>
   2 \<in> set (nodes (network attacker2 (snd (policy Targeted attacker1 (Some 2) world2)))) \<and>
   2 \<in> set (nodes (heap (snd (policy Targeted attacker1 (Some 2) world2)) ! 0))"
proof -
  have h1: "0 < length (heap world0)" by code_simp
  have h2: "NetworkAttacker 0 1 None world0 = (attacker1, world1)"
    by (simp add: attacker1_def world1_def)
  have h3: "NetworkAttacker 0 1 None world1 = (attacker2, world2)"
    by (simp add: attacker2_def world2_def)
  have r: "removed (policy_trace Targeted attacker1 (Some 2) world2) = [2, 4]" by code_simp
  have out: "2 \<notin> set (nodes (network attacker1 (snd (policy Targeted attacker1 (Some 2) world2))))"
    by code_simp
  from attackers_are_isolated [OF h1 h2 h3, of Targeted "Some 2" 0] r
  have "2 \<in> set (nodes (network attacker2 (snd (policy Targeted attacker1 (Some 2) world2)))) \<and>
        2 \<in> set (nodes (heap (snd (policy Targeted attacker1 (Some 2) world2)) ! 0))"
    by simp
  with h1 h2 h3 r out show ?thesis by blast
qed




text \<open>
  Claim C5: a run that comes to its end makes \<open>iters + 1\<close> writes to the result store,
  one per key of \<open>sim_keys\<close> in this order: the keys are the three-decimal strings of
  \<open>0\<close>, \<open>step\<close>, \<open>2 * step\<close> and so on, they start with \<open>0.000\<close>, they increase
  strictly (as strings, which here is the order of the fractions) and no key occurs
  twice. The value written under \<open>0.000\<close> is the measurement of the network as the run
  found it. Into a store that was empty the run leaves exactly these \<open>iters + 1\<close> entries.
\<close>

theorem simulate_writes_curve:
  assumes "fst (simulate attacker ty st0 w) = Inr ()"
  shows "\<exists>ms. length ms = iters + 1 \<and> length sim_keys = iters + 1 \<and>
           fst (snd (simulate attacker ty st0 w))
             = foldl (\<lambda>s (k, m). store_set s k m) st0 (zip sim_keys ms) \<and>
           (st0 = [] \<longrightarrow> fst (snd (simulate attacker ty st0 w)) = zip sim_keys ms) \<and>
           measure_network (network attacker w) = Inr (ms ! 0) \<and>
           sim_keys ! 0 = ''0.000'' \<and> sorted_wrt (<) sim_keys \<and> distinct sim_keys"
proof -
  from assms obtain m0 where m0: "measure_network (network attacker w) = Inr m0"
    by (cases "measure_network (network attacker w)") (auto simp: simulate_def)
  let ?loop = "simulate_loop attacker ty [0..<iters] (store_set st0 (fmt 0) m0) w"
  have sim: "simulate attacker ty st0 w = ?loop" by (simp add: simulate_def m0)
  with assms have "?loop = (Inr (), fst (snd ?loop), snd (snd ?loop))"
    by (metis prod.collapse)
  from simulate_loop_writes [OF this] obtain ms where
    len: "length ms = iters" and
    st: "fst (snd ?loop) = foldl (\<lambda>s (k, m). store_set s k m) (store_set st0 (fmt 0) m0)
           (zip (map (\<lambda>i. fmt (real (Suc i) * sim_step)) [0..<iters]) ms)"
    by auto
  have st': "fst (snd (simulate attacker ty st0 w))
      = foldl (\<lambda>s (k, m). store_set s k m) st0 (zip sim_keys (m0 # ms))"
    unfolding sim st sim_keys_Cons by simp
  have "foldl (\<lambda>s (k, m). store_set s k m) [] (zip sim_keys (m0 # ms)) = [] @ zip sim_keys (m0 # ms)"
    by (rule foldl_store_set_fresh) (simp_all add: sim_keys_distinct sim_keys_length len)
  with st' have "st0 = [] \<longrightarrow> fst (snd (simulate attacker ty st0 w)) = zip sim_keys (m0 # ms)"
    by auto
  with st' len m0 sim_keys_first sim_keys_sorted sim_keys_distinct sim_keys_length
  have "length (m0 # ms) = iters + 1 \<and> length sim_keys = iters + 1 \<and>
           fst (snd (simulate attacker ty st0 w))
             = foldl (\<lambda>s (k, m). store_set s k m) st0 (zip sim_keys (m0 # ms)) \<and>
           (st0 = [] \<longrightarrow> fst (snd (simulate attacker ty st0 w)) = zip sim_keys (m0 # ms)) \<and>
           measure_network (network attacker w) = Inr ((m0 # ms) ! 0) \<and>
           sim_keys ! 0 = ''0.000'' \<and> sorted_wrt (<) sim_keys \<and> distinct sim_keys"
    by simp
  then show ?thesis by blast
qed

theorem simulate_writes_curve_witness:
  "fst (simulate attacker0 Random [] world1) = Inr () \<and>
   length (fst (snd (simulate attacker0 Random [] world1))) = 101 \<and>
   fst (snd (simulate attacker0 Random [] world1)) ! 0 = (''0.000'', (1, 5))"
proof -
  have h: "fst (simulate attacker0 Random [] world1) = Inr ()" by code_simp
  have m: "measure_network (network attacker0 world1) = Inr (1, 5)" by code_simp
  from simulate_writes_curve [OF h] obtain ms where
    l: "length ms = iters + 1" "length sim_keys = iters + 1" and
    s: "fst (snd (simulate attacker0 Random [] world1)) = zip sim_keys ms" and
    f: "measure_network (network attacker0 world1) = Inr (ms ! 0)" "sim_keys ! 0 = ''0.000''"
    by auto
  from l s have "length (fst (snd (simulate attacker0 Random [] world1))) = 101"
    by (simp add: iters_100)
  moreover from l s f m have "fst (snd (simulate attacker0 Random [] world1)) ! 0 = (''0.000'', (1, 5))"
    by simp
  ultimately show ?thesis using h by simp
qed

end
